theory Spec2Isabelle
  imports Complex_Main "HOL-Library.Multiset"
begin

section \<open>Python's \<open>decimal.Decimal\<close> under the default context\<close>

text \<open>
  The money columns of the repository are Django \<open>DecimalField\<close>s, whose Python values
  are \<open>decimal.Decimal\<close>s. A finite Decimal is a sign, a coefficient and an exponent; here
  the sign is carried by the coefficient, so \<open>Decimal c e\<close> stands for \<open>c * 10 ^ e\<close>
  (the sign of a zero is dropped: \<open>Decimal('-0') == Decimal('0')\<close> in Python).

  Arithmetic follows the reference algorithms of the standard library under the default
  context: precision 28, rounding half-even. Every operation computes the exact result
  and rounds it to 28 significant digits. The exponent limits of the context
  (\<open>Emax = 999999\<close>, \<open>Emin = -999999\<close>, the only source of \<open>Overflow\<close>) are not modelled;
  NaN and the infinities cannot arise from finite operands, except by a division by
  zero, which raises.
\<close>

datatype decimal = Decimal (coefficient: int) (exponent: int)

datatype error =
    DivisionByZero
  | InvalidOperation
  | MultipleObjectsReturned
  | IntegrityError
  | ValueError

text \<open>\<open>len(str(n))\<close>: the number of decimal digits of a natural number.\<close>

fun ndigits :: "nat \<Rightarrow> nat" where
  "ndigits n = (if n < 10 then 1 else Suc (ndigits (n div 10)))"

declare ndigits.simps [simp del]

definition prec :: nat where
  "prec = 28"

text \<open>
  \<open>Decimal._fix\<close>: a coefficient of more than \<open>prec\<close> digits is cut to its leading
  \<open>prec\<close> digits, rounded half-even on the digits dropped; a carry out of the top digit
  (\<open>99...9\<close> rounded up) drops one more digit.
\<close>

definition dec_fix :: "decimal \<Rightarrow> decimal" where
  "dec_fix a =
     (let c = coefficient a; e = exponent a; n = ndigits (nat \<bar>c\<bar>) in
      if n \<le> prec then a
      else
        let d = n - prec;
            q = \<bar>c\<bar> div 10 ^ d;
            r = \<bar>c\<bar> mod 10 ^ d;
            q' = (if 2 * r > 10 ^ d \<or> (2 * r = 10 ^ d \<and> odd q) then q + 1 else q)
        in if q' = 10 ^ prec then Decimal (sgn c * 10 ^ (prec - 1)) (e + int d + 1)
           else Decimal (sgn c * q') (e + int d))"

text \<open>\<open>Decimal(n)\<close> for a Python int, as \<open>_convert_other\<close> builds it.\<close>

definition dec_of_int :: "int \<Rightarrow> decimal" where
  "dec_of_int n = Decimal n 0"

definition dec_add :: "decimal \<Rightarrow> decimal \<Rightarrow> decimal" where
  "dec_add a b =
     (let m = min (exponent a) (exponent b) in
      dec_fix (Decimal (coefficient a * 10 ^ nat (exponent a - m)
                        + coefficient b * 10 ^ nat (exponent b - m)) m))"

definition copy_negate :: "decimal \<Rightarrow> decimal" where
  "copy_negate a = Decimal (- coefficient a) (exponent a)"

definition dec_sub :: "decimal \<Rightarrow> decimal \<Rightarrow> decimal" where
  "dec_sub a b = dec_add a (copy_negate b)"


text \<open>
  The loop of \<open>__truediv__\<close> for an exact quotient:
  \<^verbatim>\<open>while exp < ideal_exp and coeff % 10 == 0: coeff //= 10; exp += 1\<close>
\<close>

function strip_zeros :: "int \<Rightarrow> int \<Rightarrow> int \<Rightarrow> int \<times> int" where
  "strip_zeros coeff expn ideal_exp =
     (if expn < ideal_exp \<and> coeff mod 10 = 0
      then strip_zeros (coeff div 10) (expn + 1) ideal_exp
      else (coeff, expn))"
  by pat_completeness auto
termination
  by (relation "measure (\<lambda>(coeff, expn, ideal_exp). nat (ideal_exp - expn))") auto

declare strip_zeros.simps [simp del]

text \<open>
  \<open>Decimal.__truediv__\<close>. A zero divisor raises: \<open>DivisionByZero\<close>, or
  \<open>InvalidOperation\<close> for \<open>0 / 0\<close> (both are trapped by the default context).
\<close>

definition dec_div :: "decimal \<Rightarrow> decimal \<Rightarrow> error + decimal" where
  "dec_div a b =
     (if coefficient b = 0 then
        (if coefficient a = 0 then Inl InvalidOperation else Inl DivisionByZero)
      else if coefficient a = 0 then Inr (dec_fix (Decimal 0 (exponent a - exponent b)))
      else
        let sign = sgn (coefficient a) * sgn (coefficient b);
            op1 = \<bar>coefficient a\<bar>;
            op2 = \<bar>coefficient b\<bar>;
            shift = int (ndigits (nat op2)) - int (ndigits (nat op1)) + int prec + 1;
            expn = exponent a - exponent b - shift;
            num = (if shift \<ge> 0 then op1 * 10 ^ nat shift else op1);
            den = (if shift \<ge> 0 then op2 else op2 * 10 ^ nat (- shift));
            coeff = num div den;
            remainder = num mod den;
            (coeff', expn') =
               (if remainder \<noteq> 0 then ((if coeff mod 5 = 0 then coeff + 1 else coeff), expn)
                else strip_zeros coeff expn (exponent a - exponent b))
        in Inr (dec_fix (Decimal (sign * coeff') expn')))"


definition dec_eq :: "decimal \<Rightarrow> decimal \<Rightarrow> bool" where
  "dec_eq a b =
     (let m = min (exponent a) (exponent b) in
      coefficient a * 10 ^ nat (exponent a - m) = coefficient b * 10 ^ nat (exponent b - m))"

text \<open>The number a Decimal denotes.\<close>

definition dec_val :: "decimal \<Rightarrow> rat" where
  "dec_val a =
     (if 0 \<le> exponent a then of_int (coefficient a * 10 ^ nat (exponent a))
      else of_int (coefficient a) / of_int (10 ^ nat (- exponent a)))"

section \<open>The shared-ledger tables (\<open>shared_ledger/models.py\<close>)\<close>

text \<open>
  Each Django model is a record of the fields the operations read or write; a table is
  the list of its rows in order of primary key (an insert appends a row with a fresh,
  larger key). An instance that has not been saved has no primary key. Foreign keys are
  the key of the row they point to; users and ledgers are their keys. Timestamps are
  natural numbers. \<open>timezone.now()\<close> is read from a clock handed to each operation:
  \<open>now k\<close> is the value of the \<open>k\<close>-th call the operation makes.

  Not modelled: the rounding a database backend applies to a decimal column on write,
  the order a queryset yields rows in (\<open>Meta.ordering\<close>), and the \<open>percentage\<close> column of
  a split (a float, \<open>100 / count\<close>), which no operation reads.
\<close>

type_synonym user = nat
type_synonym time = nat

datatype member_role = Admin | Member | Viewer
datatype member_status = Active | Invited | Inactive | Removed
datatype split_method = Equal | Exact | Percentage | Shares
datatype invite_status = Pending | Accepted | Declined | Expired | Cancelled

record member =
  m_pk :: "nat option"
  m_ledger :: nat
  m_user :: user
  m_role :: member_role
  m_status :: member_status
  m_invited_by :: "user option"
  m_invited_at :: "time option"
  m_joined_at :: time

record expense =
  e_pk :: "nat option"
  e_ledger :: nat
  e_amount :: decimal
  e_paid_by :: user
  e_split_method :: split_method

record split =
  s_pk :: "nat option"
  s_expense :: nat
  s_member :: nat
  s_amount :: decimal
  s_shares :: nat
  is_settled :: bool
  settled_at :: "time option"
  settlement_method :: string

record payment =
  p_pk :: "nat option"
  p_ledger :: nat
  from_member :: nat
  to_member :: nat
  p_amount :: decimal
  payment_method :: string
  is_confirmed :: bool
  confirmed_by :: "user option"
  confirmed_at :: "time option"

record invite =
  i_pk :: "nat option"
  i_ledger :: nat
  i_invited_by :: user
  invited_user :: "user option"
  proposed_role :: member_role
  i_status :: invite_status
  expires_at :: time
  responded_at :: "time option"
  i_created_at :: time

text \<open>
  \<open>related_splits\<close> is a many-to-many field: its rows are the pairs (payment key,
  split key) of the through table.
\<close>

record db =
  members :: "member list"
  expenses :: "expense list"
  splits :: "split list"
  payments :: "payment list"
  payment_related_splits :: "(nat \<times> nat) list"
  invites :: "invite list"

subsection \<open>\<open>Model.save\<close> and the manager calls\<close>

definition next_pk :: "nat option list \<Rightarrow> nat" where
  "next_pk pks = Suc (fold (\<lambda>k acc. case k of None \<Rightarrow> acc | Some n \<Rightarrow> max n acc) pks 0)"

text \<open>
  \<open>instance.save()\<close>: an instance without a key is inserted under a fresh key, which
  the instance receives; an instance with a key overwrites the row of that key, and is
  inserted when there is none.
\<close>

definition save_row ::
  "('r \<Rightarrow> nat option) \<Rightarrow> (nat \<Rightarrow> 'r \<Rightarrow> 'r) \<Rightarrow> 'r list \<Rightarrow> 'r \<Rightarrow> 'r list \<times> 'r" where
  "save_row pk_of set_pk rows r =
     (case pk_of r of
        None \<Rightarrow> (let r' = set_pk (next_pk (map pk_of rows)) r in (rows @ [r'], r'))
      | Some k \<Rightarrow>
          if list_ex (\<lambda>x. pk_of x = Some k) rows
          then (map (\<lambda>x. if pk_of x = Some k then r else x) rows, r)
          else (rows @ [r], r))"

definition split_save :: "db \<Rightarrow> split \<Rightarrow> db \<times> split" where
  "split_save d s =
     (let (rows, s') = save_row s_pk (\<lambda>k r. r\<lparr>s_pk := Some k\<rparr>) (splits d) s
      in (d\<lparr>splits := rows\<rparr>, s'))"

definition payment_save :: "db \<Rightarrow> payment \<Rightarrow> db \<times> payment" where
  "payment_save d p =
     (let (rows, p') = save_row p_pk (\<lambda>k r. r\<lparr>p_pk := Some k\<rparr>) (payments d) p
      in (d\<lparr>payments := rows\<rparr>, p'))"

definition invite_save :: "db \<Rightarrow> invite \<Rightarrow> db \<times> invite" where
  "invite_save d i =
     (let (rows, i') = save_row i_pk (\<lambda>k r. r\<lparr>i_pk := Some k\<rparr>) (invites d) i
      in (d\<lparr>invites := rows\<rparr>, i'))"

text \<open>
  \<open>SharedExpenseSplit.objects.create(expense=..., member=..., amount=..., shares=...)\<close>:
  the settlement columns take their field defaults. The table is
  \<open>unique_together = ['expense', 'member']\<close>: inserting a second row for a pair raises
  \<open>IntegrityError\<close>.
\<close>

definition split_objects_create ::
  "db \<Rightarrow> nat \<Rightarrow> nat \<Rightarrow> decimal \<Rightarrow> nat \<Rightarrow> (error \<times> db) + (db \<times> split)" where
  "split_objects_create d eid mid amount shares =
     (if list_ex (\<lambda>s. s_expense s = eid \<and> s_member s = mid) (splits d)
      then Inl (IntegrityError, d)
      else Inr (split_save d \<lparr>s_pk = None, s_expense = eid, s_member = mid, s_amount = amount,
                              s_shares = shares, is_settled = False, settled_at = None,
                              settlement_method = []\<rparr>))"

text \<open>
  \<open>SharedExpenseSplit.objects.get_or_create(expense=self, member=member, defaults=...)\<close>:
  the row of that expense and member when there is exactly one (the defaults are then
  not used), a new row built from the defaults when there is none, and
  \<open>MultipleObjectsReturned\<close> otherwise. The boolean is \<open>created\<close>.
\<close>

definition split_get_or_create ::
  "db \<Rightarrow> nat \<Rightarrow> nat \<Rightarrow> decimal \<Rightarrow> nat \<Rightarrow> (error \<times> db) + (split \<times> bool \<times> db)" where
  "split_get_or_create d eid mid amount shares =
     (case filter (\<lambda>s. s_expense s = eid \<and> s_member s = mid) (splits d) of
        [] \<Rightarrow> (case split_objects_create d eid mid amount shares of
                 Inl err \<Rightarrow> Inl err
               | Inr (d', s) \<Rightarrow> Inr (s, True, d'))
      | [s] \<Rightarrow> Inr (s, False, d)
      | _ \<Rightarrow> Inl (MultipleObjectsReturned, d))"

subsection \<open>\<open>SharedExpense\<close>\<close>

text \<open>
  The loop of \<open>create_equal_splits\<close> over the active members. A foreign key to an
  instance without a primary key raises \<open>ValueError\<close>.
\<close>

fun equal_splits_loop :: "db \<Rightarrow> expense \<Rightarrow> decimal \<Rightarrow> member list \<Rightarrow> (error \<times> db) + db" where
  "equal_splits_loop d e amount_per_person [] = Inr d"
| "equal_splits_loop d e amount_per_person (m # ms) =
     (case (e_pk e, m_pk m) of
        (Some eid, Some mid) \<Rightarrow>
          (case split_get_or_create d eid mid amount_per_person 1 of
             Inl err \<Rightarrow> Inl err
           | Inr (_, _, d') \<Rightarrow> equal_splits_loop d' e amount_per_person ms)
      | _ \<Rightarrow> Inl (ValueError, d))"

definition active_members :: "db \<Rightarrow> nat \<Rightarrow> member list" where
  "active_members d ledger = filter (\<lambda>m. m_ledger m = ledger \<and> m_status m = Active) (members d)"

definition create_equal_splits :: "db \<Rightarrow> expense \<Rightarrow> (error \<times> db) + db" where
  "create_equal_splits d e =
     (let ms = active_members d (e_ledger e) in
      case dec_div (e_amount e) (dec_of_int (int (length ms))) of
        Inl err \<Rightarrow> Inl (err, d)
      | Inr amount_per_person \<Rightarrow> equal_splits_loop d e amount_per_person ms)"

text \<open>
  \<open>SharedExpense.save\<close>: the row is written first; the splits of a new expense with
  method \<open>equal\<close> are generated after it. An error raised by the generation leaves the
  expense row behind.
\<close>

definition expense_save :: "db \<Rightarrow> expense \<Rightarrow> (error \<times> db) + (db \<times> expense)" where
  "expense_save d e =
     (let is_new = (e_pk e = None);
          (rows, e') = save_row e_pk (\<lambda>k r. r\<lparr>e_pk := Some k\<rparr>) (expenses d) e;
          d' = d\<lparr>expenses := rows\<rparr>
      in if is_new \<and> e_split_method e' = Equal
         then (case create_equal_splits d' e' of
                 Inl err \<Rightarrow> Inl err
               | Inr d'' \<Rightarrow> Inr (d'', e'))
         else Inr (d', e'))"

subsection \<open>\<open>SharedExpenseSplit.settle\<close> and \<open>SharedPayment.confirm_payment\<close>\<close>

definition settle :: "db \<Rightarrow> split \<Rightarrow> string \<Rightarrow> time \<Rightarrow> db \<times> split" where
  "settle d s method t =
     split_save d (s\<lparr>is_settled := True, settled_at := Some t, settlement_method := method\<rparr>)"

text \<open>\<open>payment.related_splits.all()\<close>: the splits joined through the many-to-many table.\<close>

definition related_splits :: "db \<Rightarrow> payment \<Rightarrow> split list" where
  "related_splits d p =
     (case p_pk p of
        None \<Rightarrow> []
      | Some k \<Rightarrow>
          filter (\<lambda>s. case s_pk s of None \<Rightarrow> False
                       | Some sk \<Rightarrow> (k, sk) \<in> set (payment_related_splits d)) (splits d))"

text \<open>
  The loop \<open>for split in self.related_splits.all(): split.settle(...)\<close>; the \<open>k\<close>-th clock
  reading goes to the split settled in this iteration.
\<close>

fun settle_all :: "db \<Rightarrow> split list \<Rightarrow> string \<Rightarrow> (nat \<Rightarrow> time) \<Rightarrow> nat \<Rightarrow> db" where
  "settle_all d [] method now k = d"
| "settle_all d (s # ss) method now k =
     settle_all (fst (settle d s method (now k))) ss method now (Suc k)"

definition confirm_payment :: "db \<Rightarrow> payment \<Rightarrow> user \<Rightarrow> (nat \<Rightarrow> time) \<Rightarrow> db \<times> payment" where
  "confirm_payment d p confirmed_by_user now =
     (let (d1, p1) = payment_save d (p\<lparr>is_confirmed := True,
                                       confirmed_by := Some confirmed_by_user,
                                       confirmed_at := Some (now 0)\<rparr>)
      in (settle_all d1 (related_splits d1 p1) (payment_method p1) now 1, p1))"

subsection \<open>\<open>SharedLedger.calculate_balances\<close>\<close>

text \<open>
  The builtin \<open>sum\<close> starts from the int \<open>0\<close> and adds with \<open>Decimal.__add__\<close>, which
  rounds to the context precision at every step.
\<close>

definition py_sum :: "decimal list \<Rightarrow> decimal" where
  "py_sum xs = fold (\<lambda>x acc. dec_add acc x) xs (dec_of_int 0)"

record balance_entry =
  b_user :: user
  total_paid :: decimal
  total_share :: decimal
  balance :: decimal

text \<open>\<open>queryset.first()\<close>: the row of least primary key, or \<open>None\<close>.\<close>

definition qs_first :: "'r list \<Rightarrow> 'r option" where
  "qs_first rows = (case rows of [] \<Rightarrow> None | r # _ \<Rightarrow> Some r)"

text \<open>
  The inner loop: for every expense of the ledger, the member's split of that expense
  (the first one, should there be several) is added to \<open>total_share\<close>, which starts at
  \<open>Decimal('0.00')\<close>.
\<close>

definition member_total_share :: "db \<Rightarrow> expense list \<Rightarrow> member \<Rightarrow> decimal" where
  "member_total_share d es member =
     fold (\<lambda>expense total.
             case qs_first (filter (\<lambda>s. Some (s_expense s) = e_pk expense
                                          \<and> Some (s_member s) = m_pk member) (splits d)) of
               None \<Rightarrow> total
             | Some member_share \<Rightarrow> dec_add total (s_amount member_share))
          es (Decimal 0 (- 2))"

definition ledger_expenses :: "db \<Rightarrow> nat \<Rightarrow> expense list" where
  "ledger_expenses d ledger = filter (\<lambda>e. e_ledger e = ledger) (expenses d)"

definition ledger_members :: "db \<Rightarrow> nat \<Rightarrow> member list" where
  "ledger_members d ledger = filter (\<lambda>m. m_ledger m = ledger) (members d)"

definition member_balance :: "db \<Rightarrow> nat \<Rightarrow> member \<Rightarrow> balance_entry" where
  "member_balance d ledger member =
     (let paid = py_sum (map e_amount
                   (filter (\<lambda>e. e_paid_by e = m_user member) (ledger_expenses d ledger)));
          share = member_total_share d (ledger_expenses d ledger) member
      in \<lparr>b_user = m_user member, total_paid = paid, total_share = share,
          balance = dec_sub paid share\<rparr>)"

text \<open>The dictionary is keyed by \<open>member.user.id\<close>; all members of the ledger are visited.\<close>

definition calculate_balances :: "db \<Rightarrow> nat \<Rightarrow> (user \<rightharpoonup> balance_entry)" where
  "calculate_balances d ledger =
     fold (\<lambda>member balances. balances(m_user member \<mapsto> member_balance d ledger member))
          (ledger_members d ledger) Map.empty"

subsection \<open>\<open>SharedLedgerInvite\<close>\<close>

text \<open>
  \<open>SharedLedgerMember.objects.create(...)\<close>; the table is
  \<open>unique_together = ['ledger', 'user']\<close>.
\<close>

definition member_objects_create :: "db \<Rightarrow> member \<Rightarrow> (error \<times> db) + (db \<times> member)" where
  "member_objects_create d m =
     (if list_ex (\<lambda>x. m_ledger x = m_ledger m \<and> m_user x = m_user m) (members d)
      then Inl (IntegrityError, d)
      else (let (rows, m') = save_row m_pk (\<lambda>k r. r\<lparr>m_pk := Some k\<rparr>) (members d) m
            in Inr (d\<lparr>members := rows\<rparr>, m')))"

text \<open>
  \<open>accept\<close> returns \<open>True\<close> or \<open>False\<close>. The invite is saved before the member row is
  created, so an \<open>IntegrityError\<close> of the creation leaves the invite accepted. The new
  member takes the defaults \<open>status = 'active'\<close> and \<open>joined_at = timezone.now\<close>.
\<close>

definition accept ::
  "db \<Rightarrow> invite \<Rightarrow> user \<Rightarrow> (nat \<Rightarrow> time) \<Rightarrow> (error \<times> db \<times> invite) + (bool \<times> db \<times> invite)" where
  "accept d invitation u now =
     (if i_status invitation = Pending \<and> now 0 \<le> expires_at invitation then
        (let (d1, invitation1) = invite_save d (invitation\<lparr>i_status := Accepted, invited_user := Some u,
                                              responded_at := Some (now 1)\<rparr>)
         in case member_objects_create d1
                   \<lparr>m_pk = None, m_ledger = i_ledger invitation1, m_user = u,
                    m_role = proposed_role invitation1, m_status = Active,
                    m_invited_by = Some (i_invited_by invitation1),
                    m_invited_at = Some (i_created_at invitation1), m_joined_at = now 2\<rparr> of
              Inl (err, d2) \<Rightarrow> Inl (err, d2, invitation1)
            | Inr (d2, m) \<Rightarrow> Inr (True, d2, invitation1))
      else Inr (False, d, invitation))"

definition decline :: "db \<Rightarrow> invite \<Rightarrow> (nat \<Rightarrow> time) \<Rightarrow> bool \<times> db \<times> invite" where
  "decline d invitation now =
     (if i_status invitation = Pending then
        (let (d1, invitation1) = invite_save d (invitation\<lparr>i_status := Declined, responded_at := Some (now 0)\<rparr>)
         in (True, d1, invitation1))
      else (False, d, invitation))"

section \<open>Budgets (\<open>budgets/models.py\<close>)\<close>

text \<open>
  A budget is a saved row; its period is inlined as the two dates the operations read.
  \<open>percentage_used\<close> is a float column, but the value the code assigns and compares is a
  Decimal or the int \<open>0\<close>; a finite float is a finite decimal too, so the field is a
  \<open>decimal\<close> here and the comparison with the integer threshold is by value.
\<close>

datatype transaction_type = Income | ExpenseType | Transfer

record txn =
  t_user :: user
  t_type :: transaction_type
  t_amount :: decimal
  t_category :: "nat option"
  transaction_date :: time

record budget_item =
  bi_pk :: "nat option"
  bi_budget :: nat
  bi_category :: nat
  budgeted_amount :: decimal
  bi_spent_amount :: decimal
  bi_remaining_amount :: decimal
  bi_percentage_used :: decimal

record budget =
  bu_pk :: nat
  bu_user :: user
  period_start_date :: time
  period_end_date :: time
  total_budget_amount :: decimal
  alert_threshold_percentage :: int
  total_spent :: decimal
  remaining_amount :: decimal
  percentage_used :: decimal
  last_calculated_at :: "time option"
  alert_sent_at :: "time option"

record budget_db =
  budgets :: "budget list"
  budget_items :: "budget_item list"
  transactions :: "txn list"

definition budget_save :: "budget_db \<Rightarrow> budget \<Rightarrow> budget_db" where
  "budget_save bd b =
     bd\<lparr>budgets := fst (save_row (\<lambda>x. Some (bu_pk x)) (\<lambda>k r. r\<lparr>bu_pk := k\<rparr>) (budgets bd) b)\<rparr>"

definition budget_item_save :: "budget_db \<Rightarrow> budget_item \<Rightarrow> budget_db" where
  "budget_item_save bd i =
     bd\<lparr>budget_items := fst (save_row bi_pk (\<lambda>k r. r\<lparr>bi_pk := Some k\<rparr>) (budget_items bd) i)\<rparr>"












section \<open>Notions the statements use\<close>

text \<open>
  What the loop of \<open>confirm_payment\<close> over the splits \<open>ss\<close> makes of a split row: the
  rows of \<open>ss\<close> are settled, the one at position \<open>i\<close> with the clock reading \<open>k + i\<close>;
  the others are left alone.
\<close>

definition settled_by :: "split list \<Rightarrow> string \<Rightarrow> (nat \<Rightarrow> time) \<Rightarrow> nat \<Rightarrow> split \<Rightarrow> split" where
  "settled_by ss method now k x =
     (if x \<in> set ss
      then x\<lparr>is_settled := True,
             settled_at := Some (now (k + length (takeWhile (\<lambda>y. y \<noteq> x) ss))),
             settlement_method := method\<rparr>
      else x)"


text \<open>
  The calls that write to the ledger tables, and the database a call leaves behind, also
  when it raises.
\<close>

datatype ledger_call =
    SaveExpense expense
  | Settle split string time
  | ConfirmPayment payment user "nat \<Rightarrow> time"
  | Accept invite user "nat \<Rightarrow> time"
  | Decline invite "nat \<Rightarrow> time"

fun ledger_step :: "db \<Rightarrow> ledger_call \<Rightarrow> db" where
  "ledger_step d (SaveExpense e) =
     (case expense_save d e of Inl (err, d') \<Rightarrow> d' | Inr (d', e') \<Rightarrow> d')"
| "ledger_step d (Settle s method t) = fst (settle d s method t)"
| "ledger_step d (ConfirmPayment p u now) = fst (confirm_payment d p u now)"
| "ledger_step d (Accept i u now) =
     (case accept d i u now of Inl (err, d', i') \<Rightarrow> d' | Inr (r, d', i') \<Rightarrow> d')"
| "ledger_step d (Decline i now) = fst (snd (decline d i now))"

text \<open>The invariant of the split table: a settled split has a settlement time.\<close>

definition split_inv :: "db \<Rightarrow> bool" where
  "split_inv d \<longleftrightarrow> (\<forall>s\<in>set (splits d). is_settled s \<longrightarrow> settled_at s \<noteq> None)"

text \<open>
  Whether member \<open>m\<close> has a split of expense \<open>eid\<close>, and the rows split generation
  adds for the members \<open>ms\<close>: one unsettled split each, of the given amount and one
  share, under the keys \<open>n\<close>, \<open>n + 1\<close>, ...
\<close>

definition has_split :: "db \<Rightarrow> nat \<Rightarrow> member \<Rightarrow> bool" where
  "has_split d eid m = list_ex (\<lambda>s. s_expense s = eid \<and> Some (s_member s) = m_pk m) (splits d)"

fun new_splits :: "nat \<Rightarrow> nat \<Rightarrow> decimal \<Rightarrow> member list \<Rightarrow> split list" where
  "new_splits n eid amount [] = []"
| "new_splits n eid amount (m # ms) =
     (case m_pk m of
        None \<Rightarrow> new_splits n eid amount ms
      | Some mid \<Rightarrow>
          \<lparr>s_pk = Some n, s_expense = eid, s_member = mid, s_amount = amount, s_shares = 1,
           is_settled = False, settled_at = None, settlement_method = []\<rparr>
          # new_splits (Suc n) eid amount ms)"

text \<open>The splits of expense \<open>eid\<close>, and \<open>unique_together = ['expense', 'member']\<close> for them.\<close>

definition expense_splits :: "db \<Rightarrow> nat \<Rightarrow> split list" where
  "expense_splits d eid = filter (\<lambda>s. s_expense s = eid) (splits d)"

definition one_split_per_member :: "db \<Rightarrow> nat \<Rightarrow> bool" where
  "one_split_per_member d eid \<longleftrightarrow> distinct (map s_member (expense_splits d eid))"

text \<open>The members of a query result are saved rows with distinct keys.\<close>

definition saved_members :: "member list \<Rightarrow> bool" where
  "saved_members ms \<longleftrightarrow> distinct (map m_pk ms) \<and> list_all (\<lambda>m. m_pk m \<noteq> None) ms"

section \<open>Example data\<close>





text \<open>Ledger 1 with three active members, the users 1, 2 and 3.\<close>

definition alice :: member where
  "alice = \<lparr>m_pk = Some 1, m_ledger = 1, m_user = 1, m_role = Admin, m_status = Active,
             m_invited_by = None, m_invited_at = None, m_joined_at = 0\<rparr>"

definition bob :: member where
  "bob = \<lparr>m_pk = Some 2, m_ledger = 1, m_user = 2, m_role = Member, m_status = Active,
           m_invited_by = Some 1, m_invited_at = Some 0, m_joined_at = 1\<rparr>"

definition carol :: member where
  "carol = \<lparr>m_pk = Some 3, m_ledger = 1, m_user = 3, m_role = Member, m_status = Active,
             m_invited_by = Some 1, m_invited_at = Some 0, m_joined_at = 2\<rparr>"

definition ledger0 :: db where
  "ledger0 = \<lparr>members = [alice, bob, carol], expenses = [], splits = [], payments = [],
               payment_related_splits = [], invites = []\<rparr>"


text \<open>
  A dinner of 300 paid by user 1 and split equally, the ledger after the expense was
  saved, and a payment of 100 from the second member to the first that refers to the
  second member's split.
\<close>

definition dinner :: expense where
  "dinner = \<lparr>e_pk = None, e_ledger = 1, e_amount = Decimal 300 0, e_paid_by = 1,
              e_split_method = Equal\<rparr>"

definition dinner_split :: "nat \<Rightarrow> split" where
  "dinner_split m = \<lparr>s_pk = Some m, s_expense = 1, s_member = m, s_amount = Decimal 100 0,
                      s_shares = 1, is_settled = False, settled_at = None,
                      settlement_method = []\<rparr>"

definition ledger_dinner :: db where
  "ledger_dinner = ledger0\<lparr>expenses := [dinner\<lparr>e_pk := Some 1\<rparr>],
                           splits := [dinner_split 1, dinner_split 2, dinner_split 3]\<rparr>"

definition payment0 :: payment where
  "payment0 = \<lparr>p_pk = Some 1, p_ledger = 1, from_member = 2, to_member = 1,
                p_amount = Decimal 100 0, payment_method = ''cash'', is_confirmed = False,
                confirmed_by = None, confirmed_at = None\<rparr>"

definition ledger_payment :: db where
  "ledger_payment = ledger_dinner\<lparr>payments := [payment0], payment_related_splits := [(1, 2)]\<rparr>"

definition payment_confirmed :: payment where
  "payment_confirmed = payment0\<lparr>is_confirmed := True, confirmed_by := Some 1,
                                 confirmed_at := Some 10\<rparr>"

definition ledger_confirmed :: db where
  "ledger_confirmed = ledger_payment\<lparr>payments := [payment_confirmed],
      splits := [dinner_split 1,
                 (dinner_split 2)\<lparr>is_settled := True, settled_at := Some 11,
                                  settlement_method := ''cash''\<rparr>,
                 dinner_split 3]\<rparr>"

text \<open>
  A taxi ride of 100 split equally, a bill of 100 with exact amounts, the dinner with its
  amount raised to 600 after it was saved, and a ledger whose only member is inactive.
\<close>

definition taxi :: expense where
  "taxi = \<lparr>e_pk = None, e_ledger = 1, e_amount = Decimal 100 0, e_paid_by = 1,
            e_split_method = Equal\<rparr>"

definition taxi_split :: "nat \<Rightarrow> split" where
  "taxi_split m = \<lparr>s_pk = Some m, s_expense = 1, s_member = m,
                    s_amount = Decimal 3333333333333333333333333333 (- 26),
                    s_shares = 1, is_settled = False, settled_at = None,
                    settlement_method = []\<rparr>"

definition bill :: expense where
  "bill = \<lparr>e_pk = None, e_ledger = 1, e_amount = Decimal 100 0, e_paid_by = 1,
            e_split_method = Exact\<rparr>"

definition bill_split :: "nat \<Rightarrow> split" where
  "bill_split m = \<lparr>s_pk = Some m, s_expense = 1, s_member = m, s_amount = Decimal 30 0,
                    s_shares = 1, is_settled = False, settled_at = None,
                    settlement_method = []\<rparr>"

definition dinner600 :: expense where
  "dinner600 = dinner\<lparr>e_pk := Some 1, e_amount := Decimal 600 0\<rparr>"

definition ledger_idle :: db where
  "ledger_idle = ledger0\<lparr>members := [alice\<lparr>m_status := Inactive\<rparr>]\<rparr>"

section \<open>Digits and rounding\<close>

lemma ndigits_le: "0 < k \<Longrightarrow> n < 10 ^ k \<Longrightarrow> ndigits n \<le> k"
proof (induction k arbitrary: n)
  case 0
  then show ?case by simp
next
  case (Suc k)
  show ?case
  proof (cases "n < 10")
    case True
    then show ?thesis by (simp add: ndigits.simps)
  next
    case False
    with Suc.prems have "n div 10 < 10 ^ k" by (simp add: less_mult_imp_div_less mult.commute)
    moreover from False this have "0 < k" by (cases k) auto
    ultimately have "ndigits (n div 10) \<le> k" by (rule Suc.IH[rotated])
    with False show ?thesis by (subst ndigits.simps) simp
  qed
qed

lemma ndigits_gt: "10 ^ k \<le> n \<Longrightarrow> k < ndigits n"
proof (induction k arbitrary: n)
  case 0
  then show ?case by (subst ndigits.simps) simp
next
  case (Suc k)
  then have "10 ^ k \<le> n div 10" by (simp add: less_eq_div_iff_mult_less_eq mult.commute)
  then have "k < ndigits (n div 10)" by (rule Suc.IH)
  moreover from Suc.prems have "\<not> n < 10"
    by (metis One_nat_def le_trans not_less one_le_numeral one_le_power power_Suc mult.right_neutral mult_le_mono2)
  ultimately show ?case by (subst ndigits.simps) simp
qed

lemma ndigits_eq: "10 ^ k \<le> n \<Longrightarrow> n < 10 ^ Suc k \<Longrightarrow> ndigits n = Suc k"
  using ndigits_gt[of k n] ndigits_le[of "Suc k" n] by simp

lemma ndigits_pos: "0 < ndigits n"
  by (subst ndigits.simps) simp

lemma ndigits_1: "n < 10 \<Longrightarrow> ndigits n = 1"
  by (subst ndigits.simps) simp

lemma dec_fix_id: "\<bar>coefficient a\<bar> < 10 ^ 28 \<Longrightarrow> dec_fix a = a"
proof -
  assume "\<bar>coefficient a\<bar> < 10 ^ 28"
  then have "nat \<bar>coefficient a\<bar> < 10 ^ 28" by (simp add: nat_less_iff)
  then have "ndigits (nat \<bar>coefficient a\<bar>) \<le> 28" by (intro ndigits_le) simp_all
  then show ?thesis by (simp add: dec_fix_def prec_def Let_def)
qed

section \<open>Equal splits\<close>

lemma fold_max_ge: "a \<le> fold (\<lambda>k acc. case k of None \<Rightarrow> acc | Some n \<Rightarrow> max n acc) pks (a::nat)"
proof (induction pks arbitrary: a)
  case Nil
  then show ?case by simp
next
  case (Cons k pks)
  show ?case using Cons.IH[of "case k of None \<Rightarrow> a | Some n \<Rightarrow> max n a"]
    by (cases k) auto
qed

lemma fold_max_mem:
  "Some k \<in> set pks \<Longrightarrow> k \<le> fold (\<lambda>k acc. case k of None \<Rightarrow> acc | Some n \<Rightarrow> max n acc) pks (a::nat)"
proof (induction pks arbitrary: a)
  case Nil
  then show ?case by simp
next
  case (Cons x pks)
  show ?case
  proof (cases "x = Some k")
    case True
    with fold_max_ge[of "max k a" pks] show ?thesis by simp
  next
    case False
    with Cons show ?thesis by simp
  qed
qed

lemma next_pk_fresh: "Some k \<in> set pks \<Longrightarrow> k < next_pk pks"
  using fold_max_mem[of k pks 0] by (simp add: next_pk_def)

lemma next_pk_snoc: "next_pk (pks @ [Some (next_pk pks)]) = Suc (next_pk pks)"
  by (simp add: next_pk_def)

lemma strip_zeros_power: "strip_zeros (k * 10 ^ j) (i - int j) i = (k, i)"
proof (induction j)
  case 0
  then show ?case by (subst strip_zeros.simps) simp
next
  case (Suc j)
  have "strip_zeros (k * 10 ^ Suc j) (i - int (Suc j)) i
        = strip_zeros (k * 10 ^ Suc j div 10) (i - int (Suc j) + 1) i"
    by (subst strip_zeros.simps) simp
  also have "k * 10 ^ Suc j div 10 = k * 10 ^ j" by simp
  also have "i - int (Suc j) + 1 = i - int j" by simp
  finally show ?case using Suc by simp
qed

lemma dec_div_exact:
  assumes n: "0 < n" and dv: "c mod int n = 0" and small: "\<bar>c\<bar> < 10 ^ 28"
  shows "dec_div (Decimal c e) (dec_of_int (int n)) = Inr (Decimal (c div int n) e)"
proof (cases "c = 0")
  case True
  then show ?thesis using n by (simp add: dec_div_def dec_of_int_def dec_fix_id)
next
  case False
  define op1 where "op1 = \<bar>c\<bar>"
  define sh where "sh = int (ndigits n) - int (ndigits (nat op1)) + int prec + 1"
  have "nat op1 < 10 ^ 28" using small by (simp add: op1_def nat_less_iff)
  then have "ndigits (nat op1) \<le> 28" by (intro ndigits_le) simp_all
  moreover have "0 < ndigits n" by (rule ndigits_pos)
  ultimately have shpos: "0 \<le> sh" by (simp add: sh_def prec_def)
  from dv have "int n dvd c" by (simp add: dvd_eq_mod_eq_0)
  then have dvd: "int n dvd op1" by (simp add: op1_def)
  from dvd obtain m where m: "op1 = int n * m" by (auto simp add: dvd_def)
  have q: "op1 * 10 ^ nat sh div int n = (op1 div int n) * 10 ^ nat sh"
    using n by (simp add: m mult.assoc)
  have r: "op1 * 10 ^ nat sh mod int n = 0" by (simp add: m mult.assoc)
  have st: "strip_zeros ((op1 div int n) * 10 ^ nat sh) (e - sh) e = (op1 div int n, e)"
    using strip_zeros_power[of "op1 div int n" "nat sh" e] shpos by simp
  have sg: "sgn c * (op1 div int n) = c div int n"
  proof (cases "0 < c")
    case True
    then show ?thesis by (simp add: op1_def)
  next
    case f: False
    with False have neg: "c < 0" by simp
    from dv obtain k where k: "c = int n * k" by (auto simp add: mod_eq_0_iff_dvd)
    from neg have "op1 = - c" by (simp add: op1_def)
    with k have "op1 = int n * (- k)" by simp
    moreover have "int n * (- k) div int n = - k" using n by (subst nonzero_mult_div_cancel_left) simp_all
    ultimately have "op1 div int n = - k" by (simp only:)
    moreover have "sgn c = - 1" using neg by simp
    moreover have "c div int n = k" using k n by simp
    ultimately show ?thesis by simp
  qed
  have le: "\<bar>c div int n\<bar> < 10 ^ 28"
  proof -
    from dv obtain k where k: "c = int n * k" by (auto simp add: mod_eq_0_iff_dvd)
    with n have "c div int n = k" by simp
    moreover from k n have "\<bar>k\<bar> \<le> \<bar>c\<bar>" by (simp add: abs_mult mult_le_cancel_right1)
    ultimately show ?thesis using small by simp
  qed
  show ?thesis
    using False n shpos q r st sg le
    by (simp add: dec_div_def dec_of_int_def Let_def op1_def[symmetric] sh_def[symmetric] dec_fix_id)
qed

lemma filter_key_le1:
  "distinct (map f (filter P xs)) \<Longrightarrow> length (filter (\<lambda>x. P x \<and> f x = k) xs) \<le> 1"
proof (induction xs)
  case Nil
  then show ?case by simp
next
  case (Cons a xs)
  show ?case
  proof (cases "P a \<and> f a = k")
    case True
    with Cons.prems have "\<forall>x\<in>set xs. P x \<longrightarrow> f x \<noteq> k" by (auto simp add: image_iff)
    then have "filter (\<lambda>x. P x \<and> f x = k) xs = []" by (auto simp add: filter_empty_conv)
    with True show ?thesis by simp
  next
    case False
    with Cons show ?thesis by (auto split: if_splits)
  qed
qed

lemma get_or_create_existing:
  assumes "one_split_per_member d eid" "has_split d eid m" "m_pk m = Some mid"
  shows "\<exists>s. split_get_or_create d eid mid amount shares = Inr (s, False, d)"
proof -
  have le: "length (filter (\<lambda>s. s_expense s = eid \<and> s_member s = mid) (splits d)) \<le> 1"
    using assms(1) filter_key_le1[of s_member "\<lambda>s. s_expense s = eid" "splits d" mid]
    by (simp add: one_split_per_member_def expense_splits_def)
  from assms(2,3) have "filter (\<lambda>s. s_expense s = eid \<and> s_member s = mid) (splits d) \<noteq> []"
    by (auto simp add: has_split_def list_ex_iff filter_empty_conv)
  with le obtain s where "filter (\<lambda>s. s_expense s = eid \<and> s_member s = mid) (splits d) = [s]"
    by (cases "filter (\<lambda>s. s_expense s = eid \<and> s_member s = mid) (splits d)") (auto simp add: length_Suc_conv)
  then show ?thesis by (simp add: split_get_or_create_def)
qed

lemma get_or_create_new:
  assumes "\<not> has_split d eid m" "m_pk m = Some mid"
  shows "split_get_or_create d eid mid amount shares =
     Inr (\<lparr>s_pk = Some (next_pk (map s_pk (splits d))), s_expense = eid, s_member = mid,
           s_amount = amount, s_shares = shares, is_settled = False, settled_at = None,
           settlement_method = []\<rparr>, True,
          d\<lparr>splits := splits d @
             [\<lparr>s_pk = Some (next_pk (map s_pk (splits d))), s_expense = eid, s_member = mid,
               s_amount = amount, s_shares = shares, is_settled = False, settled_at = None,
               settlement_method = []\<rparr>]\<rparr>)"
proof -
  from assms have e: "filter (\<lambda>s. s_expense s = eid \<and> s_member s = mid) (splits d) = []"
    by (auto simp add: has_split_def list_ex_iff filter_empty_conv)
  from assms have l: "\<not> list_ex (\<lambda>s. s_expense s = eid \<and> s_member s = mid) (splits d)"
    by (auto simp add: has_split_def list_ex_iff)
  show ?thesis using e l
    by (simp add: split_get_or_create_def split_objects_create_def split_save_def save_row_def Let_def)
qed

lemma equal_splits_loop_effect:
  assumes "e_pk e = Some eid" "saved_members ms" "one_split_per_member d eid"
  shows "equal_splits_loop d e amount ms =
     Inr (d\<lparr>splits := splits d @ new_splits (next_pk (map s_pk (splits d))) eid amount
                           (filter (\<lambda>m. \<not> has_split d eid m) ms)\<rparr>)"
  using assms
proof (induction ms arbitrary: d)
  case Nil
  then show ?case by simp
next
  case (Cons m ms)
  from Cons.prems(2) obtain mid where mid: "m_pk m = Some mid"
    by (auto simp add: saved_members_def)
  from Cons.prems(2) have sm: "saved_members ms" and notin: "m_pk m \<notin> m_pk ` set ms"
    by (auto simp add: saved_members_def)
  show ?case
  proof (cases "has_split d eid m")
    case True
    from get_or_create_existing[OF Cons.prems(3) True mid, of amount 1]
    obtain s where "split_get_or_create d eid mid amount 1 = Inr (s, False, d)" by blast
    with Cons.prems(1) mid have "equal_splits_loop d e amount (m # ms) = equal_splits_loop d e amount ms"
      by simp
    with Cons.IH[OF Cons.prems(1) sm Cons.prems(3)] True show ?thesis by simp
  next
    case False
    define n where "n = next_pk (map s_pk (splits d))"
    define row where "row = \<lparr>s_pk = Some n, s_expense = eid, s_member = mid,
           s_amount = amount, s_shares = 1, is_settled = False, settled_at = None,
           settlement_method = []\<rparr>"
    define d1 where "d1 = d\<lparr>splits := splits d @ [row]\<rparr>"
    from get_or_create_new[OF False mid, of amount 1]
    have g: "split_get_or_create d eid mid amount 1 = Inr (row, True, d1)"
      by (simp add: row_def d1_def n_def)
    with Cons.prems(1) mid have step: "equal_splits_loop d e amount (m # ms) = equal_splits_loop d1 e amount ms"
      by simp
    have u1: "one_split_per_member d1 eid"
      using Cons.prems(3) False mid
      by (auto simp add: one_split_per_member_def expense_splits_def d1_def row_def has_split_def list_ex_iff)
    have hs: "\<And>m'. m' \<in> set ms \<Longrightarrow> has_split d1 eid m' = has_split d eid m'"
      using notin mid by (auto simp add: has_split_def d1_def row_def list_ex_iff image_iff)
    have f: "filter (\<lambda>m. \<not> has_split d1 eid m) ms = filter (\<lambda>m. \<not> has_split d eid m) ms"
      by (rule filter_cong) (simp_all add: hs)
    have np: "next_pk (map s_pk (splits d1)) = Suc n"
      by (simp add: d1_def row_def n_def next_pk_snoc)
    from Cons.IH[OF Cons.prems(1) sm u1] f np
    have "equal_splits_loop d1 e amount ms =
       Inr (d1\<lparr>splits := splits d1 @ new_splits (Suc n) eid amount
                           (filter (\<lambda>m. \<not> has_split d eid m) ms)\<rparr>)" by simp
    with step False mid show ?thesis by (simp add: d1_def row_def n_def)
  qed
qed

section \<open>Settling splits and confirming payments\<close>

lemma save_row_existing:
  "r0 \<in> set rows \<Longrightarrow> pk_of r0 = Some k \<Longrightarrow> pk_of r = Some k \<Longrightarrow>
   save_row pk_of set_pk rows r = (map (\<lambda>x. if pk_of x = Some k then r else x) rows, r)"
  by (auto simp add: save_row_def list_ex_iff)

lemma settle_existing:
  assumes "s \<in> set (splits d)" "s_pk s = Some k"
  shows "settle d s method t =
    (d\<lparr>splits := map (\<lambda>x. if s_pk x = Some k
                           then s\<lparr>is_settled := True, settled_at := Some t, settlement_method := method\<rparr>
                           else x) (splits d)\<rparr>,
     s\<lparr>is_settled := True, settled_at := Some t, settlement_method := method\<rparr>)"
  using assms by (auto simp add: settle_def split_save_def save_row_def list_ex_iff)

lemma distinct_pk_eq:
  "distinct (map s_pk rows) \<Longrightarrow> x \<in> set rows \<Longrightarrow> y \<in> set rows \<Longrightarrow> s_pk x = s_pk y \<Longrightarrow> x = y"
  by (auto simp add: distinct_map dest: inj_onD)

lemma settle_all_effect:
  assumes "distinct (map s_pk (splits d))" "distinct ss" "set ss \<subseteq> set (splits d)"
    "\<forall>s\<in>set ss. s_pk s \<noteq> None"
  shows "settle_all d ss method now k = d\<lparr>splits := map (settled_by ss method now k) (splits d)\<rparr>"
  using assms
proof (induction ss arbitrary: d k)
  case Nil
  then show ?case by (simp add: settled_by_def)
next
  case (Cons s ss)
  from Cons.prems obtain sk where sk: "s_pk s = Some sk" by auto
  from Cons.prems have sin: "s \<in> set (splits d)" by simp
  define s1 where "s1 = s\<lparr>is_settled := True, settled_at := Some (now k), settlement_method := method\<rparr>"
  define g where "g = (\<lambda>x. if s_pk x = Some sk then s1 else x)"
  define d1 where "d1 = d\<lparr>splits := map g (splits d)\<rparr>"
  have st: "fst (settle d s method (now k)) = d1"
    using settle_existing[OF sin sk] by (simp add: d1_def g_def s1_def)
  have gpk: "\<And>x. s_pk (g x) = s_pk x" by (simp add: g_def s1_def sk)
  have geq: "g x = (if x = s then s1 else x)" if x: "x \<in> set (splits d)" for x
  proof (cases "s_pk x = Some sk")
    case True
    with distinct_pk_eq[OF Cons.prems(1) x sin] sk have "x = s" by simp
    with sk show ?thesis by (simp add: g_def)
  next
    case False
    with sk have "x \<noteq> s" by auto
    with False show ?thesis by (simp add: g_def)
  qed
  have d1d: "distinct (map s_pk (splits d1))"
    using Cons.prems(1) by (simp add: d1_def comp_def gpk)
  have ss_in: "set ss \<subseteq> set (splits d1)"
  proof
    fix x assume x: "x \<in> set ss"
    with Cons.prems have xin: "x \<in> set (splits d)" and "x \<noteq> s" by auto
    with geq have "g x = x" by simp
    with xin show "x \<in> set (splits d1)" unfolding d1_def by (simp add: image_iff) metis
  qed
  have ih: "settle_all d1 ss method now (Suc k) = d1\<lparr>splits := map (settled_by ss method now (Suc k)) (splits d1)\<rparr>"
    using Cons.IH[OF d1d _ ss_in] Cons.prems by simp
  have s1_notin: "s1 \<notin> set ss"
  proof
    assume a: "s1 \<in> set ss"
    with Cons.prems have "s1 \<in> set (splits d)" by auto
    moreover have "s_pk s1 = s_pk s" by (simp add: s1_def)
    ultimately have "s1 = s" by (rule distinct_pk_eq[OF Cons.prems(1) _ sin])
    with a Cons.prems(2) show False by simp
  qed
  have "map (settled_by ss method now (Suc k)) (map g (splits d))
        = map (settled_by (s # ss) method now k) (splits d)"
  proof (simp, intro ballI)
    fix x assume x: "x \<in> set (splits d)"
    show "settled_by ss method now (Suc k) (g x) = settled_by (s # ss) method now k x"
    proof (cases "x = s")
      case True
      with geq[OF x] s1_notin show ?thesis by (simp add: settled_by_def s1_def)
    next
      case False
      with geq[OF x] show ?thesis by (auto simp add: settled_by_def)
    qed
  qed
  with ih st show ?case by (simp add: d1_def)
qed

lemma payment_save_effect:
  assumes "payment_save d p = (d1, p1)"
  shows "p_pk p1 \<noteq> None \<and> (p_pk p \<noteq> None \<longrightarrow> p_pk p1 = p_pk p)
     \<and> p_ledger p1 = p_ledger p \<and> from_member p1 = from_member p \<and> to_member p1 = to_member p
     \<and> p_amount p1 = p_amount p \<and> payment_method p1 = payment_method p
     \<and> is_confirmed p1 = is_confirmed p \<and> confirmed_by p1 = confirmed_by p
     \<and> confirmed_at p1 = confirmed_at p
     \<and> p1 \<in> set (payments d1)
     \<and> (\<forall>q\<in>set (payments d1). q = p1 \<or> q \<in> set (payments d))
     \<and> (\<forall>q\<in>set (payments d). q \<in> set (payments d1) \<or> p_pk q = p_pk p1)
     \<and> members d1 = members d \<and> expenses d1 = expenses d \<and> splits d1 = splits d
     \<and> payment_related_splits d1 = payment_related_splits d \<and> invites d1 = invites d"
  using assms
  by (auto simp add: payment_save_def save_row_def Let_def list_ex_iff
      split: option.splits if_splits prod.splits)

lemma related_splits_props:
  "distinct (map s_pk (splits d)) \<Longrightarrow>
   distinct (related_splits d p) \<and> set (related_splits d p) \<subseteq> set (splits d)
   \<and> (\<forall>s\<in>set (related_splits d p). s_pk s \<noteq> None)"
  by (auto simp add: related_splits_def distinct_map split: option.splits)

lemma settled_by_pk [simp]: "s_pk (settled_by ss method now k x) = s_pk x"
  by (simp add: settled_by_def)


lemma related_splits_cong:
  "splits d' = splits d \<Longrightarrow> payment_related_splits d' = payment_related_splits d \<Longrightarrow>
   p_pk p' = p_pk p \<Longrightarrow> related_splits d' p' = related_splits d p"
  by (simp add: related_splits_def split: option.splits)

lemma related_after:
  assumes "splits d' = map (settled_by (related_splits d p) method now k) (splits d)"
    "payment_related_splits d' = payment_related_splits d"
  shows "related_splits d' q = map (settled_by (related_splits d p) method now k) (related_splits d q)"
  using assms by (auto simp add: related_splits_def filter_map comp_def split: option.splits)

lemma confirm_payment_effect:
  assumes dist: "distinct (map s_pk (splits d))"
    and c: "confirm_payment d p u now = (d', p')"
  shows "is_confirmed p' \<and> confirmed_by p' = Some u \<and> confirmed_at p' = Some (now 0)
     \<and> p_pk p' \<noteq> None \<and> (p_pk p \<noteq> None \<longrightarrow> p_pk p' = p_pk p)
     \<and> p_ledger p' = p_ledger p \<and> from_member p' = from_member p \<and> to_member p' = to_member p
     \<and> p_amount p' = p_amount p \<and> payment_method p' = payment_method p
     \<and> p' \<in> set (payments d')
     \<and> (\<forall>q\<in>set (payments d'). q = p' \<or> q \<in> set (payments d))
     \<and> (\<forall>q\<in>set (payments d). q \<in> set (payments d') \<or> p_pk q = p_pk p')
     \<and> splits d' = map (settled_by (related_splits d p') (payment_method p) now 1) (splits d)
     \<and> members d' = members d \<and> expenses d' = expenses d
     \<and> payment_related_splits d' = payment_related_splits d \<and> invites d' = invites d"
proof -
  define pc where "pc = p\<lparr>is_confirmed := True, confirmed_by := Some u, confirmed_at := Some (now 0)\<rparr>"
  obtain d1 p1 where s: "payment_save d pc = (d1, p1)" by (cases "payment_save d pc") auto
  note e = payment_save_effect[OF s]
  from c s have d': "d' = settle_all d1 (related_splits d1 p1) (payment_method p1) now 1" and p': "p' = p1"
    by (auto simp add: confirm_payment_def pc_def)
  from e have sp: "splits d1 = splits d" "payment_related_splits d1 = payment_related_splits d" by simp_all
  then have rel: "related_splits d1 p1 = related_splits d p1" by (intro related_splits_cong) simp_all
  have dist1: "distinct (map s_pk (splits d1))" using dist sp by simp
  note rp = related_splits_props[OF dist1, of p1]
  have "settle_all d1 (related_splits d1 p1) (payment_method p1) now 1
        = d1\<lparr>splits := map (settled_by (related_splits d1 p1) (payment_method p1) now 1) (splits d1)\<rparr>"
    using settle_all_effect[OF dist1, of "related_splits d1 p1"] rp by blast
  with d' have d'': "d' = d1\<lparr>splits := map (settled_by (related_splits d p1) (payment_method p1) now 1) (splits d)\<rparr>"
    using rel sp by simp
  have pm: "payment_method p1 = payment_method p" using e by (simp add: pc_def)
  show ?thesis using e d'' p' pm by (simp add: pc_def)
qed

lemma takeWhile_neq_less: "x \<in> set xs \<Longrightarrow> length (takeWhile (\<lambda>y. y \<noteq> x) xs) < length xs"
  by (induction xs) auto

lemma related_after_settled:
  assumes "splits d' = map (settled_by (related_splits d p) method now k) (splits d)"
    "payment_related_splits d' = payment_related_splits d" "p_pk p' = p_pk p"
    "s \<in> set (related_splits d' p')"
  shows "is_settled s \<and> settlement_method s = method
     \<and> (\<exists>i<length (related_splits d p). settled_at s = Some (now (k + i)))"
proof -
  have "related_splits d' p' = related_splits d' p" using assms(3) by (simp add: related_splits_def)
  with related_after[OF assms(1,2), of p] assms(4)
  obtain x where x: "x \<in> set (related_splits d p)" "s = settled_by (related_splits d p) method now k x"
    by auto
  have "length (takeWhile (\<lambda>y. y \<noteq> x) (related_splits d p)) < length (related_splits d p)"
    using x(1) by (rule takeWhile_neq_less)
  with x show ?thesis by (auto simp add: settled_by_def)
qed

lemma first_confirmation: "confirm_payment ledger_payment payment0 1 (\<lambda>k. 10 + k) = (ledger_confirmed, payment_confirmed)"
  by (simp add: confirm_payment_def payment_save_def save_row_def related_splits_def settle_def
      split_save_def ledger_confirmed_def payment_confirmed_def ledger_payment_def payment0_def
      ledger_dinner_def dinner_split_def Let_def)

lemma second_confirmation: "confirm_payment ledger_confirmed payment_confirmed 2 (\<lambda>k. 20 + k) =
   (ledger_confirmed\<lparr>payments := [payment_confirmed\<lparr>confirmed_by := Some 2, confirmed_at := Some 20\<rparr>],
      splits := [dinner_split 1,
                 (dinner_split 2)\<lparr>is_settled := True, settled_at := Some 21,
                                  settlement_method := ''cash''\<rparr>,
                 dinner_split 3]\<rparr>,
    payment_confirmed\<lparr>confirmed_by := Some 2, confirmed_at := Some 20\<rparr>)"
  by (simp add: confirm_payment_def payment_save_def save_row_def related_splits_def settle_def
      split_save_def ledger_confirmed_def payment_confirmed_def ledger_payment_def payment0_def
      ledger_dinner_def dinner_split_def Let_def)

lemma distinct_ledger_payment: "distinct (map s_pk (splits ledger_payment))"
  by (simp add: ledger_payment_def ledger_dinner_def dinner_split_def)



text \<open>
  Claim C4, as stated, fails: \<open>confirm_payment\<close> has no guard and cannot raise. On the
  payment confirmed above, a second confirmation by user 2 at time 20 returns as the
  first did: it replaces \<open>confirmed_by\<close> and \<open>confirmed_at\<close>, and it settles the related
  split a second time, \<open>settled_at\<close> moving from 11 to 21.
\<close>

theorem confirm_twice_counterexample:
  "is_confirmed payment_confirmed
   \<and> confirm_payment ledger_confirmed payment_confirmed 2 (\<lambda>k. 20 + k) =
   (ledger_confirmed\<lparr>payments := [payment_confirmed\<lparr>confirmed_by := Some 2, confirmed_at := Some 20\<rparr>],
      splits := [dinner_split 1,
                 (dinner_split 2)\<lparr>is_settled := True, settled_at := Some 21,
                                  settlement_method := ''cash''\<rparr>,
                 dinner_split 3]\<rparr>,
    payment_confirmed\<lparr>confirmed_by := Some 2, confirmed_at := Some 20\<rparr>)
   \<and> related_splits ledger_confirmed payment_confirmed
       = [(dinner_split 2)\<lparr>is_settled := True, settled_at := Some 11,
                            settlement_method := ''cash''\<rparr>]"
proof -
  have c: "is_confirmed payment_confirmed" by (simp add: payment_confirmed_def)
  have r: "related_splits ledger_confirmed payment_confirmed
       = [(dinner_split 2)\<lparr>is_settled := True, settled_at := Some 11,
                            settlement_method := ''cash''\<rparr>]"
    by (simp add: related_splits_def ledger_confirmed_def payment_confirmed_def
        ledger_payment_def payment0_def ledger_dinner_def dinner_split_def)
  show ?thesis by (intro conjI, (rule c second_confirmation r)+)
qed

text \<open>
  Claim C4, amended. Confirming a payment a second time raises nothing: the call returns
  a confirmed payment whose \<open>confirmed_by\<close> and \<open>confirmed_at\<close> are those of the second
  call; it refers to the same splits, and each of them is settled again: it stays
  settled, and its \<open>settled_at\<close> is a clock reading of the second call and its method the
  payment's.
\<close>

theorem confirm_twice:
  assumes "distinct (map s_pk (splits d))"
    and "confirm_payment d p u now = (d1, p1)"
    and "confirm_payment d1 p1 u2 now2 = (d2, p2)"
  shows "is_confirmed p1 \<and> is_confirmed p2
     \<and> confirmed_by p2 = Some u2 \<and> confirmed_at p2 = Some (now2 0)
     \<and> p_pk p2 = p_pk p1 \<and> p2 \<in> set (payments d2)
     \<and> related_splits d1 p2 = related_splits d1 p1
     \<and> splits d2 = map (settled_by (related_splits d1 p1) (payment_method p) now2 1) (splits d1)
     \<and> map s_pk (related_splits d2 p2) = map s_pk (related_splits d1 p1)
     \<and> (\<forall>s\<in>set (related_splits d2 p2).
           is_settled s \<and> settlement_method s = payment_method p
           \<and> (\<exists>i<length (related_splits d1 p1). settled_at s = Some (now2 (1 + i))))"
proof -
  note e1 = confirm_payment_effect[OF assms(1,2)]
  have dist1: "distinct (map s_pk (splits d1))"
    using assms(1) e1 by (simp add: comp_def)
  note e2 = confirm_payment_effect[OF dist1 assms(3)]
  from e1 e2 have pk: "p_pk p2 = p_pk p1" by simp
  then have rel: "related_splits d1 p2 = related_splits d1 p1" by (simp add: related_splits_def)
  from e1 e2 have pm: "payment_method p1 = payment_method p" by simp
  from e2 rel pm have sp: "splits d2 = map (settled_by (related_splits d1 p1) (payment_method p) now2 1) (splits d1)"
    by simp
  from e2 have rl: "payment_related_splits d2 = payment_related_splits d1" by simp
  have m: "map s_pk (related_splits d2 p2) = map s_pk (related_splits d1 p1)"
    using related_after[OF sp rl, of p2] rel by (simp add: comp_def)
  have a: "\<forall>s\<in>set (related_splits d2 p2).
           is_settled s \<and> settlement_method s = payment_method p
           \<and> (\<exists>i<length (related_splits d1 p1). settled_at s = Some (now2 (1 + i)))"
    using related_after_settled[OF sp rl pk] by blast
  from e1 e2 pk rel sp m a show ?thesis by simp
qed

theorem confirm_twice_witness:
  "distinct (map s_pk (splits ledger_payment))
   \<and> confirm_payment ledger_payment payment0 1 (\<lambda>k. 10 + k) = (ledger_confirmed, payment_confirmed)
   \<and> confirm_payment ledger_confirmed payment_confirmed 2 (\<lambda>k. 20 + k) =
   (ledger_confirmed\<lparr>payments := [payment_confirmed\<lparr>confirmed_by := Some 2, confirmed_at := Some 20\<rparr>],
      splits := [dinner_split 1,
                 (dinner_split 2)\<lparr>is_settled := True, settled_at := Some 21,
                                  settlement_method := ''cash''\<rparr>,
                 dinner_split 3]\<rparr>,
    payment_confirmed\<lparr>confirmed_by := Some 2, confirmed_at := Some 20\<rparr>)
   \<and> confirmed_by (payment_confirmed\<lparr>confirmed_by := Some 2, confirmed_at := Some 20\<rparr>) = Some 2"
proof -
  note t = confirm_twice[OF distinct_ledger_payment first_confirmation second_confirmation]
  from t have c: "confirmed_by (payment_confirmed\<lparr>confirmed_by := Some 2, confirmed_at := Some 20\<rparr>) = Some 2"
    by simp
  show ?thesis
    by (intro conjI, (rule distinct_ledger_payment first_confirmation second_confirmation c)+)
qed

section \<open>The settlement of splits\<close>

lemma split_save_effect:
  assumes "split_save d s = (d', s')"
  shows "s' \<in> set (splits d') \<and> (\<forall>x\<in>set (splits d'). x = s' \<or> x \<in> set (splits d))
     \<and> s_expense s' = s_expense s \<and> s_member s' = s_member s \<and> s_amount s' = s_amount s
     \<and> s_shares s' = s_shares s \<and> is_settled s' = is_settled s \<and> settled_at s' = settled_at s
     \<and> settlement_method s' = settlement_method s
     \<and> (s_pk s \<noteq> None \<longrightarrow> s_pk s' = s_pk s) \<and> s_pk s' \<noteq> None
     \<and> members d' = members d \<and> expenses d' = expenses d \<and> payments d' = payments d
     \<and> payment_related_splits d' = payment_related_splits d \<and> invites d' = invites d"
  using assms
  by (auto simp add: split_save_def save_row_def Let_def list_ex_iff
      split: option.splits if_splits prod.splits)

lemma settle_effect:
  assumes "settle d s method t = (d', s')"
  shows "is_settled s' \<and> settled_at s' = Some t \<and> settlement_method s' = method
     \<and> s_expense s' = s_expense s \<and> s_member s' = s_member s \<and> s_amount s' = s_amount s
     \<and> s_shares s' = s_shares s \<and> (s_pk s \<noteq> None \<longrightarrow> s_pk s' = s_pk s)
     \<and> s' \<in> set (splits d') \<and> (\<forall>x\<in>set (splits d'). x = s' \<or> x \<in> set (splits d))
     \<and> members d' = members d \<and> expenses d' = expenses d \<and> payments d' = payments d
     \<and> payment_related_splits d' = payment_related_splits d \<and> invites d' = invites d"
  using split_save_effect[OF assms[unfolded settle_def]] by simp

lemma get_or_create_rows:
  "(case split_get_or_create d eid mid amount shares of
      Inl (err, d') \<Rightarrow> d' = d
    | Inr (s, created, d') \<Rightarrow>
        (\<forall>x\<in>set (splits d'). x \<in> set (splits d) \<or> \<not> is_settled x))"
proof (cases "filter (\<lambda>s. s_expense s = eid \<and> s_member s = mid) (splits d)")
  case Nil
  show ?thesis
  proof (cases "split_objects_create d eid mid amount shares")
    case (Inl a)
    then show ?thesis using Nil
      by (auto simp add: split_get_or_create_def split_objects_create_def split: if_splits)
  next
    case (Inr b)
    obtain d1 s1 where b: "b = (d1, s1)" by (cases b) auto
    with Inr have "split_save d \<lparr>s_pk = None, s_expense = eid, s_member = mid, s_amount = amount,
                              s_shares = shares, is_settled = False, settled_at = None,
                              settlement_method = []\<rparr> = (d1, s1)"
      by (auto simp add: split_objects_create_def split: if_splits)
    from split_save_effect[OF this] have "\<forall>x\<in>set (splits d1). x \<in> set (splits d) \<or> \<not> is_settled x"
      by auto
    with Inr b Nil show ?thesis by (simp add: split_get_or_create_def)
  qed
next
  case (Cons a list)
  then show ?thesis by (cases list) (simp_all add: split_get_or_create_def)
qed

lemma loop_rows:
  "(case equal_splits_loop d e amount ms of
      Inl (err, d') \<Rightarrow> (\<forall>x\<in>set (splits d'). x \<in> set (splits d) \<or> \<not> is_settled x)
    | Inr d' \<Rightarrow> (\<forall>x\<in>set (splits d'). x \<in> set (splits d) \<or> \<not> is_settled x))"
proof (induction ms arbitrary: d)
  case Nil
  then show ?case by simp
next
  case (Cons m ms)
  show ?case
  proof (cases "e_pk e")
    case None
    then show ?thesis by simp
  next
    case (Some eid)
    show ?thesis
    proof (cases "m_pk m")
      case None
      with Some show ?thesis by simp
    next
      case (Some mid)
      show ?thesis
      proof (cases "split_get_or_create d eid mid amount 1")
        case (Inl a)
        with get_or_create_rows[of d eid mid amount 1] \<open>e_pk e = Some eid\<close> Some
        show ?thesis by (auto split: prod.splits)
      next
        case (Inr b)
        obtain s c d1 where b: "b = (s, c, d1)" by (cases b) auto
        with get_or_create_rows[of d eid mid amount 1] Inr
        have r: "\<forall>x\<in>set (splits d1). x \<in> set (splits d) \<or> \<not> is_settled x" by simp
        from Inr b \<open>e_pk e = Some eid\<close> Some
        have eq: "equal_splits_loop d e amount (m # ms) = equal_splits_loop d1 e amount ms" by simp
        show ?thesis using Cons.IH[of d1] r unfolding eq
          by (cases "equal_splits_loop d1 e amount ms") (auto split: prod.splits)
      qed
    qed
  qed
qed

lemma expense_save_rows:
  "\<forall>x\<in>set (splits (ledger_step d (SaveExpense e))). x \<in> set (splits d) \<or> \<not> is_settled x"
proof -
  obtain rows e' where s: "save_row e_pk (\<lambda>k r. r\<lparr>e_pk := Some k\<rparr>) (expenses d) e = (rows, e')"
    by (cases "save_row e_pk (\<lambda>k r. r\<lparr>e_pk := Some k\<rparr>) (expenses d) e") auto
  define d1 where "d1 = d\<lparr>expenses := rows\<rparr>"
  have sp: "splits d1 = splits d" by (simp add: d1_def)
  show ?thesis
  proof (cases "e_pk e = None \<and> e_split_method e' = Equal")
    case False
    with s show ?thesis by (auto simp add: expense_save_def Let_def)
  next
    case True
    show ?thesis
    proof (cases "dec_div (e_amount e') (dec_of_int (int (length (active_members d1 (e_ledger e')))))")
      case (Inl a)
      with True s show ?thesis
        by (auto simp add: expense_save_def create_equal_splits_def Let_def d1_def)
    next
      case (Inr q)
      from loop_rows[of d1 e' q "active_members d1 (e_ledger e')"] Inr True s sp
      show ?thesis
        by (auto simp add: expense_save_def create_equal_splits_def Let_def d1_def
            split: sum.splits prod.splits)
    qed
  qed
qed

lemma settle_all_rows:
  "\<forall>s\<in>set ss. s_pk s \<noteq> None \<Longrightarrow>
   (\<forall>x\<in>set (splits (settle_all d ss method now k)).
      x \<in> set (splits d)
      \<or> (is_settled x \<and> settled_at x \<noteq> None \<and> settlement_method x = method
          \<and> (\<exists>s\<in>set ss. s_pk x = s_pk s)))
   \<and> payment_related_splits (settle_all d ss method now k) = payment_related_splits d"
proof (induction ss arbitrary: d k)
  case Nil
  then show ?case by simp
next
  case (Cons s ss)
  obtain d1 s1 where st: "settle d s method (now k) = (d1, s1)"
    by (cases "settle d s method (now k)") auto
  note e = settle_effect[OF st]
  from Cons.prems have ih: "(\<forall>x\<in>set (splits (settle_all d1 ss method now (Suc k))).
      x \<in> set (splits d1)
      \<or> (is_settled x \<and> settled_at x \<noteq> None \<and> settlement_method x = method
          \<and> (\<exists>s\<in>set ss. s_pk x = s_pk s)))
   \<and> payment_related_splits (settle_all d1 ss method now (Suc k)) = payment_related_splits d1"
    using Cons.IH[of d1 "Suc k"] by simp
  from Cons.prems have pk: "s_pk s1 = s_pk s" using e by simp
  have "\<forall>x\<in>set (splits (settle_all d1 ss method now (Suc k))).
      x \<in> set (splits d)
      \<or> (is_settled x \<and> settled_at x \<noteq> None \<and> settlement_method x = method
          \<and> (\<exists>s'\<in>set (s # ss). s_pk x = s_pk s'))"
  proof
    fix x assume x: "x \<in> set (splits (settle_all d1 ss method now (Suc k)))"
    with ih consider "x \<in> set (splits d1)"
      | "is_settled x \<and> settled_at x \<noteq> None \<and> settlement_method x = method
          \<and> (\<exists>s\<in>set ss. s_pk x = s_pk s)" by blast
    then show "x \<in> set (splits d)
      \<or> (is_settled x \<and> settled_at x \<noteq> None \<and> settlement_method x = method
          \<and> (\<exists>s'\<in>set (s # ss). s_pk x = s_pk s'))"
    proof cases
      case 1
      with e have "x = s1 \<or> x \<in> set (splits d)" by blast
      then show ?thesis using e pk by auto
    next
      case 2
      then show ?thesis by auto
    qed
  qed
  moreover from ih e have "payment_related_splits (settle_all d1 ss method now (Suc k)) = payment_related_splits d"
    by simp
  ultimately show ?case using st by simp
qed

lemma accept_splits:
  "splits (ledger_step d (Accept i u now)) = splits d"
  by (auto simp add: accept_def invite_save_def member_objects_create_def save_row_def Let_def
      split: if_splits prod.splits sum.splits option.splits)

lemma decline_splits:
  "splits (ledger_step d (Decline i now)) = splits d"
  by (auto simp add: decline_def invite_save_def save_row_def Let_def
      split: if_splits prod.splits option.splits)

lemma confirm_rows:
  assumes "x \<in> set (splits (ledger_step d (ConfirmPayment p u now)))"
  shows "x \<in> set (splits d)
     \<or> (is_settled x \<and> settled_at x \<noteq> None
         \<and> x \<in> set (related_splits (ledger_step d (ConfirmPayment p u now))
                       (snd (confirm_payment d p u now))))"
proof -
  define pc where "pc = p\<lparr>is_confirmed := True, confirmed_by := Some u, confirmed_at := Some (now 0)\<rparr>"
  obtain d1 p1 where s: "payment_save d pc = (d1, p1)" by (cases "payment_save d pc") auto
  note e = payment_save_effect[OF s]
  define d' where "d' = settle_all d1 (related_splits d1 p1) (payment_method p1) now 1"
  have c: "confirm_payment d p u now = (d', p1)"
    using s by (simp add: confirm_payment_def pc_def d'_def)
  have pks: "\<forall>s\<in>set (related_splits d1 p1). s_pk s \<noteq> None"
    by (auto simp add: related_splits_def split: option.splits)
  note r = settle_all_rows[OF pks, of d1 "payment_method p1" now 1, folded d'_def]
  from assms c have x: "x \<in> set (splits d')" by simp
  with r consider "x \<in> set (splits d1)"
    | "is_settled x \<and> settled_at x \<noteq> None \<and> (\<exists>s\<in>set (related_splits d1 p1). s_pk x = s_pk s)"
    by blast
  then show ?thesis
  proof cases
    case 1
    with e show ?thesis by simp
  next
    case 2
    then obtain s where s: "s \<in> set (related_splits d1 p1)" "s_pk x = s_pk s" by blast
    from s r x have "x \<in> set (related_splits d' p1)"
      by (auto simp add: related_splits_def split: option.splits)
    with 2 c show ?thesis by simp
  qed
qed

text \<open>
  Claim C8. \<open>settle\<close> marks the split settled and records the time and the method, on the
  instance and on its row, and touches no other row. The invariant of the split table
  (a settled split has a settlement time) is kept by every call that writes to the
  ledger tables: saving an expense, settling a split, confirming a payment, accepting
  and declining an invite. After such a call, a settled row of the split table was the
  same settled row before the call, or it is the split an explicit \<open>settle\<close> has just
  saved, or the call confirmed a payment and the row is one of the splits that payment
  refers to.
\<close>

theorem split_settlement:
  "(\<forall>d' s'. settle d s method t = (d', s') \<longrightarrow>
       is_settled s' \<and> settled_at s' = Some t \<and> settlement_method s' = method
       \<and> s_expense s' = s_expense s \<and> s_member s' = s_member s \<and> s_amount s' = s_amount s
       \<and> s' \<in> set (splits d') \<and> (\<forall>x\<in>set (splits d'). x = s' \<or> x \<in> set (splits d)))
   \<and> (split_inv d \<longrightarrow> split_inv (ledger_step d c))
   \<and> (\<forall>x\<in>set (splits (ledger_step d c)). is_settled x \<longrightarrow>
         x \<in> set (splits d)
         \<or> (\<exists>s0 m0 t0. c = Settle s0 m0 t0 \<and> x = snd (settle d s0 m0 t0))
         \<or> (\<exists>p u now. c = ConfirmPayment p u now
               \<and> x \<in> set (related_splits (ledger_step d c) (snd (confirm_payment d p u now)))))"
proof -
  have a: "\<forall>d' s'. settle d s method t = (d', s') \<longrightarrow>
       is_settled s' \<and> settled_at s' = Some t \<and> settlement_method s' = method
       \<and> s_expense s' = s_expense s \<and> s_member s' = s_member s \<and> s_amount s' = s_amount s
       \<and> s' \<in> set (splits d') \<and> (\<forall>x\<in>set (splits d'). x = s' \<or> x \<in> set (splits d))"
    using settle_effect[of d s _ t] by blast
  have rows: "\<forall>x\<in>set (splits (ledger_step d c)).
         (x \<in> set (splits d) \<or> \<not> is_settled x)
         \<or> (\<exists>s0 m0 t0. c = Settle s0 m0 t0 \<and> x = snd (settle d s0 m0 t0) \<and> settled_at x \<noteq> None)
         \<or> (\<exists>p u now. c = ConfirmPayment p u now \<and> settled_at x \<noteq> None
               \<and> x \<in> set (related_splits (ledger_step d c) (snd (confirm_payment d p u now))))"
  proof (cases c)
    case (SaveExpense e)
    with expense_save_rows[of d e] show ?thesis by blast
  next
    case (Settle s0 m0 t0)
    obtain d1 s1 where st: "settle d s0 m0 t0 = (d1, s1)" by (cases "settle d s0 m0 t0") auto
    from settle_effect[OF st] st Settle show ?thesis by auto
  next
    case (ConfirmPayment p u now)
    with confirm_rows[of _ d p u now] show ?thesis by blast
  next
    case (Accept i u now)
    with accept_splits[of d i u now] show ?thesis by simp
  next
    case (Decline i now)
    with decline_splits[of d i now] show ?thesis by simp
  qed
  have b: "split_inv d \<longrightarrow> split_inv (ledger_step d c)"
    using rows unfolding split_inv_def by blast
  have c: "\<forall>x\<in>set (splits (ledger_step d c)). is_settled x \<longrightarrow>
         x \<in> set (splits d)
         \<or> (\<exists>s0 m0 t0. c = Settle s0 m0 t0 \<and> x = snd (settle d s0 m0 t0))
         \<or> (\<exists>p u now. c = ConfirmPayment p u now
               \<and> x \<in> set (related_splits (ledger_step d c) (snd (confirm_payment d p u now))))"
    using rows by blast
  from a b c show ?thesis by blast
qed

text \<open>
  In the ledger with the dinner and the open payment no split is settled. Settling the
  third split by \<open>bank\<close> at time 7 settles that row alone, and the invariant holds after
  it, as it does after confirming the payment.
\<close>

theorem split_settlement_witness:
  "settle ledger_payment (dinner_split 3) ''bank'' 7 =
     (ledger_payment\<lparr>splits := [dinner_split 1, dinner_split 2,
         (dinner_split 3)\<lparr>is_settled := True, settled_at := Some 7,
                          settlement_method := ''bank''\<rparr>]\<rparr>,
      (dinner_split 3)\<lparr>is_settled := True, settled_at := Some 7, settlement_method := ''bank''\<rparr>)
   \<and> split_inv ledger_payment
   \<and> split_inv (ledger_step ledger_payment (Settle (dinner_split 3) ''bank'' 7))
   \<and> split_inv (ledger_step ledger_payment (ConfirmPayment payment0 1 (\<lambda>k. 10 + k)))
   \<and> splits (ledger_step ledger_payment (ConfirmPayment payment0 1 (\<lambda>k. 10 + k)))
       = [dinner_split 1,
          (dinner_split 2)\<lparr>is_settled := True, settled_at := Some 11,
                           settlement_method := ''cash''\<rparr>,
          dinner_split 3]"
proof -
  have ev: "settle ledger_payment (dinner_split 3) ''bank'' 7 =
     (ledger_payment\<lparr>splits := [dinner_split 1, dinner_split 2,
         (dinner_split 3)\<lparr>is_settled := True, settled_at := Some 7,
                          settlement_method := ''bank''\<rparr>]\<rparr>,
      (dinner_split 3)\<lparr>is_settled := True, settled_at := Some 7, settlement_method := ''bank''\<rparr>)"
    by (simp add: settle_def split_save_def save_row_def ledger_payment_def ledger_dinner_def
        dinner_split_def)
  have i0: "split_inv ledger_payment"
    by (simp add: split_inv_def ledger_payment_def ledger_dinner_def dinner_split_def)
  have i1: "split_inv (ledger_step ledger_payment (Settle (dinner_split 3) ''bank'' 7))"
    using split_settlement[of ledger_payment "dinner_split 3" "''bank''" 7
        "Settle (dinner_split 3) ''bank'' 7"] i0 by blast
  have i2: "split_inv (ledger_step ledger_payment (ConfirmPayment payment0 1 (\<lambda>k. 10 + k)))"
    using split_settlement[of ledger_payment "dinner_split 3" "''bank''" 7
        "ConfirmPayment payment0 1 (\<lambda>k. 10 + k)"] i0 by blast
  have sp: "splits (ledger_step ledger_payment (ConfirmPayment payment0 1 (\<lambda>k. 10 + k)))
       = [dinner_split 1,
          (dinner_split 2)\<lparr>is_settled := True, settled_at := Some 11,
                           settlement_method := ''cash''\<rparr>,
          dinner_split 3]"
    using first_confirmation by (simp add: ledger_confirmed_def)
  show ?thesis by (intro conjI, (rule ev i0 i1 i2 sp)+)
qed

section \<open>Accepting an invite\<close>

lemma save_row_member:
  "save_row pk_of set_pk rows r = (rows', r') \<Longrightarrow> r' \<in> set rows'"
  by (auto simp add: save_row_def Let_def list_ex_iff split: option.splits if_splits)







section \<open>The budget alert\<close>





lemma budget_save_other [simp]:
  "budget_items (budget_save bd b) = budget_items bd"
  "transactions (budget_save bd b) = transactions bd"
  by (simp_all add: budget_save_def)






lemma budget_item_save_other [simp]:
  "budgets (budget_item_save bd i) = budgets bd"
  "transactions (budget_item_save bd i) = transactions bd"
  by (simp_all add: budget_item_save_def)












end
